theory Spec2Isabelle
  imports Main
begin

section \<open>Data model\<close>

text \<open>
  The consumer of \<^verbatim>\<open>blog/consumers.py\<close> is a Python object with three attributes that
  the code reads: \<^verbatim>\<open>scope\<close> (a nested dictionary, of which the code reads
  \<^verbatim>\<open>scope['url_route']['kwargs']['post_id']\<close>), \<^verbatim>\<open>channel_name\<close> (the name under which
  the channel layer knows this connection) and \<^verbatim>\<open>post_group_name\<close>, which no constructor
  sets: it exists only once \<^verbatim>\<open>connect\<close> has assigned it, so it is optional here and
  reading it while unset is Python's AttributeError.
  Text is \<open>string\<close>. The routing parameter \<^verbatim>\<open>post_id\<close> is kept as the text that the
  f-string \<^verbatim>\<open>f"post_{post_id}"\<close> prints for it (a captured URL segment is that text
  itself, an integer identifier prints as its digits), so the f-string is a
  concatenation; the values of an event are text as well. Characters are Isabelle's
  8-bit characters, read as the code points 0 to 255.
\<close>

datatype error = KeyError string | AttributeError string

type_synonym kwargs = "string \<rightharpoonup> string"
type_synonym url_route = "string \<rightharpoonup> kwargs"
type_synonym scope = "string \<rightharpoonup> url_route"
type_synonym event = "string \<rightharpoonup> string"

record consumer =
  scope :: scope
  channel_name :: string
  post_group_name :: "string option"

text \<open>
  What the consumer does to the outside goes through four calls of the framework:
  \<^verbatim>\<open>channel_layer.group_add\<close>, \<^verbatim>\<open>channel_layer.group_discard\<close>, \<^verbatim>\<open>self.accept\<close> and
  \<^verbatim>\<open>self.send\<close>. The outside is a record of the channel layer's groups (group name to
  the channel names in it, in the order they joined, as the keys of a Python dictionary)
  and of the calls made so far, oldest first.
\<close>

datatype effect =
    GroupAdd string string
  | GroupDiscard string string
  | Accept string
  | Send string string

record world =
  groups :: "string \<Rightarrow> string list"
  log :: "effect list"

subsection \<open>JSON text\<close>

text \<open>
  \<^verbatim>\<open>json.dumps\<close> with its default arguments: items separated by a comma and a space, key
  and value by a colon and a space, and text between double quotes with backslash, the
  double quote and everything outside the printable ASCII range escaped.
\<close>

datatype json = JStr string | JObj "(string \<times> json) list"

definition hexdigit :: "nat \<Rightarrow> char" where
  "hexdigit n = (if n mod 16 < 10 then char_of (48 + n mod 16) else char_of (87 + n mod 16))"

definition hex4 :: "nat \<Rightarrow> string" where
  "hex4 n = [hexdigit (n div 4096), hexdigit (n div 256), hexdigit (n div 16), hexdigit n]"

definition escape_char :: "char \<Rightarrow> string" where
  "escape_char c =
     (if c = CHR 0x5C then [CHR 0x5C, CHR 0x5C]
      else if c = CHR 0x22 then [CHR 0x5C, CHR 0x22]
      else if c = CHR 0x08 then [CHR 0x5C, CHR ''b'']
      else if c = CHR 0x0C then [CHR 0x5C, CHR ''f'']
      else if c = CHR 0x0A then [CHR 0x5C, CHR ''n'']
      else if c = CHR 0x0D then [CHR 0x5C, CHR ''r'']
      else if c = CHR 0x09 then [CHR 0x5C, CHR ''t'']
      else if (of_char c :: nat) < 32 \<or> 126 < (of_char c :: nat)
        then [CHR 0x5C, CHR ''u''] @ hex4 (of_char c)
      else [c])"

definition encode_basestring_ascii :: "string \<Rightarrow> string" where
  "encode_basestring_ascii s = [CHR 0x22] @ concat (map escape_char s) @ [CHR 0x22]"

fun join :: "string \<Rightarrow> string list \<Rightarrow> string" where
  "join sep [] = []"
| "join sep [x] = x"
| "join sep (x # y # ys) = x @ sep @ join sep (y # ys)"

fun json_dumps :: "json \<Rightarrow> string" where
  "json_dumps (JStr s) = encode_basestring_ascii s"
| "json_dumps (JObj kvs) =
     ''{'' @ join '', '' (map (\<lambda>kv. encode_basestring_ascii (fst kv) @ '': '' @ json_dumps (snd kv)) kvs) @ ''}''"

subsection \<open>Reading the text back\<close>

text \<open>
  A reader for the texts that \<^verbatim>\<open>json_dumps\<close> writes for an object of one text field:
  the escapes of JSON text undone, character by character. It serves only to state that
  such a text holds the field's name and its text unchanged.
\<close>

definition unhex :: "char \<Rightarrow> nat option" where
  "unhex c =
     (let n = (of_char c :: nat) in
      if 48 \<le> n \<and> n \<le> 57 then Some (n - 48)
      else if 97 \<le> n \<and> n \<le> 102 then Some (n - 87)
      else if 65 \<le> n \<and> n \<le> 70 then Some (n - 55)
      else None)"

definition unescape :: "char \<Rightarrow> char option" where
  "unescape e =
     (if e = CHR 0x5C then Some (CHR 0x5C)
      else if e = CHR 0x22 then Some (CHR 0x22)
      else if e = CHR ''/'' then Some (CHR ''/'')
      else if e = CHR ''b'' then Some (CHR 0x08)
      else if e = CHR ''f'' then Some (CHR 0x0C)
      else if e = CHR ''n'' then Some (CHR 0x0A)
      else if e = CHR ''r'' then Some (CHR 0x0D)
      else if e = CHR ''t'' then Some (CHR 0x09)
      else None)"

definition unhex4 :: "char \<Rightarrow> char \<Rightarrow> char \<Rightarrow> char \<Rightarrow> char option" where
  "unhex4 h1 h2 h3 h4 =
     (case (unhex h1, unhex h2, unhex h3, unhex h4) of
        (Some a, Some b, Some c, Some d) \<Rightarrow>
          (let n = ((a * 16 + b) * 16 + c) * 16 + d
           in if n < 256 then Some (char_of n) else None)
      | _ \<Rightarrow> None)"

fun scanstring :: "string \<Rightarrow> (string \<times> string) option" where
  "scanstring [] = None"
| "scanstring (c # cs) =
     (if c = CHR 0x22 then Some ([], cs)
      else if c = CHR 0x5C then
        (case cs of
           [] \<Rightarrow> None
         | e # r \<Rightarrow>
             if e = CHR ''u'' then
               (case r of
                  h1 # h2 # h3 # h4 # r' \<Rightarrow>
                    (case unhex4 h1 h2 h3 h4 of
                       None \<Rightarrow> None
                     | Some x \<Rightarrow> map_option (\<lambda>(s, rest). (x # s, rest)) (scanstring r'))
                | _ \<Rightarrow> None)
             else
               (case unescape e of
                  None \<Rightarrow> None
                | Some x \<Rightarrow> map_option (\<lambda>(s, rest). (x # s, rest)) (scanstring r)))
      else map_option (\<lambda>(s, rest). (c # s, rest)) (scanstring cs))"

definition expect :: "string \<Rightarrow> string \<Rightarrow> string option" where
  "expect pre t = (if take (length pre) t = pre then Some (drop (length pre) t) else None)"

definition loads_object :: "string \<Rightarrow> json option" where
  "loads_object t =
     (case expect [CHR ''{'', CHR 0x22] t of None \<Rightarrow> None | Some t1 \<Rightarrow>
     (case scanstring t1 of None \<Rightarrow> None | Some (k, t2) \<Rightarrow>
     (case expect [CHR '':'', CHR '' '', CHR 0x22] t2 of None \<Rightarrow> None | Some t3 \<Rightarrow>
     (case scanstring t3 of None \<Rightarrow> None | Some (v, t4) \<Rightarrow>
        if t4 = ''}'' then Some (JObj [(k, JStr v)]) else None))))"

section \<open>The framework calls\<close>

text \<open>
  Modelled from the spec: the channel layer and the transport belong to the framework,
  not to this repository. The spec gives their contract: register(group, session),
  unregister(group, session), where removing a session that is not in the group changes
  nothing, and sending a text frame to the session's client. None of them raises.
\<close>

definition group_add :: "string \<Rightarrow> string \<Rightarrow> world \<Rightarrow> world" where
  "group_add g ch w =
     w\<lparr>groups := (groups w)(g := (if ch \<in> set (groups w g) then groups w g else groups w g @ [ch])),
       log := log w @ [GroupAdd g ch]\<rparr>"

definition group_discard :: "string \<Rightarrow> string \<Rightarrow> world \<Rightarrow> world" where
  "group_discard g ch w =
     w\<lparr>groups := (groups w)(g := removeAll ch (groups w g)),
       log := log w @ [GroupDiscard g ch]\<rparr>"

definition accept :: "consumer \<Rightarrow> world \<Rightarrow> world" where
  "accept self w = w\<lparr>log := log w @ [Accept (channel_name self)]\<rparr>"

definition send :: "consumer \<Rightarrow> string \<Rightarrow> world \<Rightarrow> world" where
  "send self text_data w = w\<lparr>log := log w @ [Send (channel_name self) text_data]\<rparr>"

section \<open>NotificationConsumer\<close>

definition get_post_group_name :: "consumer \<Rightarrow> error + string" where
  "get_post_group_name self =
     (case post_group_name self of
        None \<Rightarrow> Inl (AttributeError ''post_group_name'')
      | Some g \<Rightarrow> Inr g)"

definition connect :: "consumer \<Rightarrow> world \<Rightarrow> error + (consumer \<times> world)" where
  "connect self w =
     (case scope self ''url_route'' of
        None \<Rightarrow> Inl (KeyError ''url_route'')
      | Some route \<Rightarrow>
     (case route ''kwargs'' of
        None \<Rightarrow> Inl (KeyError ''kwargs'')
      | Some kw \<Rightarrow>
     (case kw ''post_id'' of
        None \<Rightarrow> Inl (KeyError ''post_id'')
      | Some post_id \<Rightarrow>
         (let self1 = self\<lparr>post_group_name := Some (''post_'' @ post_id)\<rparr> in
          case get_post_group_name self1 of
            Inl e \<Rightarrow> Inl e
          | Inr g \<Rightarrow>
              (let w1 = group_add g (channel_name self1) w;
                   w2 = accept self1 w1
               in Inr (self1, w2))))))"

definition disconnect :: "consumer \<Rightarrow> int \<Rightarrow> world \<Rightarrow> error + world" where
  "disconnect self close_code w =
     (case get_post_group_name self of
        Inl e \<Rightarrow> Inl e
      | Inr g \<Rightarrow> Inr (group_discard g (channel_name self) w))"

definition send_notification :: "consumer \<Rightarrow> event \<Rightarrow> world \<Rightarrow> error + world" where
  "send_notification self event w =
     (case event ''message'' of
        None \<Rightarrow> Inl (KeyError ''message'')
      | Some message \<Rightarrow> Inr (send self (json_dumps (JObj [(''message'', JStr message)])) w))"

section \<open>The running system\<close>

text \<open>
  Modelled from the spec: the runtime that keeps one consumer per connection and hands
  a group's event to its members is the framework's, not in \<^verbatim>\<open>blog/consumers.py\<close>. From
  the spec: an event sent to a group is delivered to every session currently registered
  in it, and a delivery that fails affects neither the other deliveries nor the caller.
  Delivery to a session is a call of that session's handler \<^verbatim>\<open>send_notification\<close> with
  the event.
\<close>

record system =
  consumers :: "string \<rightharpoonup> consumer"
  env :: world

definition deliver :: "event \<Rightarrow> string \<Rightarrow> system \<Rightarrow> system" where
  "deliver ev ch s =
     (case consumers s ch of
        None \<Rightarrow> s
      | Some self \<Rightarrow>
          (case send_notification self ev (env s) of
             Inl e \<Rightarrow> s
           | Inr w \<Rightarrow> s\<lparr>env := w\<rparr>))"

definition group_send :: "string \<Rightarrow> event \<Rightarrow> system \<Rightarrow> system" where
  "group_send g ev s = fold (deliver ev) (groups (env s) g) s"

text \<open>
  Modelled from the spec: \<^verbatim>\<open>notify\<close> is not in \<^verbatim>\<open>blog/consumers.py\<close>. From the spec:
  \<^verbatim>\<open>notify(postId, message)\<close> builds the notification from the text and delivers it to
  every session currently registered in the group of \<^verbatim>\<open>postId\<close>, the group that
  \<^verbatim>\<open>connect\<close> names \<^verbatim>\<open>"post_"\<close> followed by the identifier.
\<close>

definition notify :: "string \<Rightarrow> string \<Rightarrow> system \<Rightarrow> system" where
  "notify post_id message s =
     group_send (''post_'' @ post_id)
       [''type'' \<mapsto> ''send_notification'', ''message'' \<mapsto> message] s"

text \<open>
  Modelled from the spec: a session goes from unconnected to connected by \<^verbatim>\<open>connect\<close> on
  a consumer of its own, made for the connection with the connection's scope and a
  channel name; a \<^verbatim>\<open>connect\<close> that raises leaves no session behind. \<^verbatim>\<open>disconnect\<close> is called
  on the session's consumer with the close code; for a channel name with no consumer
  there is nothing to call.
\<close>

definition new_consumer :: "string \<Rightarrow> scope \<Rightarrow> consumer" where
  "new_consumer ch sc = \<lparr>scope = sc, channel_name = ch, post_group_name = None\<rparr>"

datatype action =
    Connect string scope
  | Disconnect string int
  | Notify string string

fun step :: "action \<Rightarrow> system \<Rightarrow> system" where
  "step (Connect ch sc) s =
     (case connect (new_consumer ch sc) (env s) of
        Inl e \<Rightarrow> s
      | Inr (self, w) \<Rightarrow> s\<lparr>consumers := (consumers s)(ch \<mapsto> self), env := w\<rparr>)"
| "step (Disconnect ch close_code) s =
     (case consumers s ch of
        None \<Rightarrow> s
      | Some self \<Rightarrow>
          (case disconnect self close_code (env s) of
             Inl e \<Rightarrow> s
           | Inr w \<Rightarrow> s\<lparr>env := w\<rparr>))"
| "step (Notify post_id message) s = notify post_id message s"

definition empty_world :: world where
  "empty_world = \<lparr>groups = (\<lambda>g. []), log = []\<rparr>"

definition init :: system where
  "init = \<lparr>consumers = Map.empty, env = empty_world\<rparr>"

definition exec :: "action list \<Rightarrow> system" where
  "exec tr = fold step tr init"

subsection \<open>What a trace says, read off the trace alone\<close>

text \<open>
  These follow the spec's words and look at the trace only: the post identifier that a
  connection request carries (and the request that carries a given one), the channel
  names that connections were opened with, the sessions that connected with a post
  identifier and have not yet disconnected, the texts published to a post, and the part
  of a trace before a session's disconnect.
\<close>

definition scope_of_post :: "string \<Rightarrow> scope" where
  "scope_of_post p = [''url_route'' \<mapsto> [''kwargs'' \<mapsto> [''post_id'' \<mapsto> p]]]"

definition post_id_of :: "scope \<Rightarrow> string option" where
  "post_id_of sc =
     (case sc ''url_route'' of None \<Rightarrow> None | Some route \<Rightarrow>
        (case route ''kwargs'' of None \<Rightarrow> None | Some kw \<Rightarrow> kw ''post_id''))"

fun connect_names :: "action list \<Rightarrow> string list" where
  "connect_names [] = []"
| "connect_names (Connect ch sc # tr) = ch # connect_names tr"
| "connect_names (a # tr) = connect_names tr"

fun subscribe :: "string \<Rightarrow> action \<Rightarrow> string set \<Rightarrow> string set" where
  "subscribe p (Connect ch sc) S = (if post_id_of sc = Some p then insert ch S else S)"
| "subscribe p (Disconnect ch close_code) S = S - {ch}"
| "subscribe p (Notify q m) S = S"

definition subscribers :: "action list \<Rightarrow> string \<Rightarrow> string set" where
  "subscribers tr p = fold (subscribe p) tr {}"

fun published :: "string \<Rightarrow> action list \<Rightarrow> string list" where
  "published p [] = []"
| "published p (Notify q m # tr) = (if q = p then m # published p tr else published p tr)"
| "published p (a # tr) = published p tr"

fun is_disconnect :: "string \<Rightarrow> action \<Rightarrow> bool" where
  "is_disconnect ch (Disconnect c close_code) = (c = ch)"
| "is_disconnect ch a = False"

fun until_disconnect :: "string \<Rightarrow> action list \<Rightarrow> action list" where
  "until_disconnect ch [] = []"
| "until_disconnect ch (a # tr) = (if is_disconnect ch a then [] else a # until_disconnect ch tr)"

definition disconnected :: "string \<Rightarrow> action list \<Rightarrow> bool" where
  "disconnected ch tr = list_ex (is_disconnect ch) tr"

abbreviation notification :: "string \<Rightarrow> string" where
  "notification m \<equiv> json_dumps (JObj [(''message'', JStr m)])"

text \<open>
  What is observed of a state: the text frames a session's client has been sent, oldest
  first, and the members of a group.
\<close>

fun frames_to :: "string \<Rightarrow> effect list \<Rightarrow> string list" where
  "frames_to ch [] = []"
| "frames_to ch (Send c t # es) = (if c = ch then t # frames_to ch es else frames_to ch es)"
| "frames_to ch (e # es) = frames_to ch es"

definition received :: "system \<Rightarrow> string \<Rightarrow> string list" where
  "received s ch = frames_to ch (log (env s))"

definition members :: "system \<Rightarrow> string \<Rightarrow> string set" where
  "members s g = set (groups (env s) g)"

subsection \<open>What holds between the consumers and the groups\<close>

definition sys_inv :: "system \<Rightarrow> bool" where
  "sys_inv s \<longleftrightarrow>
     (\<forall>ch self. consumers s ch = Some self \<longrightarrow>
        channel_name self = ch \<and>
        (\<exists>p. post_id_of (scope self) = Some p \<and> post_group_name self = Some (''post_'' @ p)))
   \<and> (\<forall>g ch. ch \<in> set (groups (env s) g) \<longrightarrow>
        (\<exists>self. consumers s ch = Some self \<and> post_group_name self = Some g))
   \<and> (\<forall>g. distinct (groups (env s) g))"

section \<open>The consumer's methods, one call at a time\<close>

lemma connect_result:
  assumes "scope self ''url_route'' = Some route" and "route ''kwargs'' = Some kw"
    and "kw ''post_id'' = Some post_id"
  shows "connect self w =
     Inr (self\<lparr>post_group_name := Some (''post_'' @ post_id)\<rparr>,
          accept self (group_add (''post_'' @ post_id) (channel_name self) w))"
  using assms by (simp add: connect_def get_post_group_name_def accept_def Let_def)

lemma scope_of_post_lookup:
  "scope_of_post p ''url_route'' = Some [''kwargs'' \<mapsto> [''post_id'' \<mapsto> p]]"
  by (simp add: scope_of_post_def)

text \<open>
  C2. When the routing parameters hold a post identifier, \<^verbatim>\<open>connect\<close> names the group
  \<^verbatim>\<open>"post_"\<close> followed by the identifier, keeps that name in the consumer and registers
  the consumer's channel in that group and changes no other membership. So a session
  that was in no group before, as every new session is, is afterwards in that group
  and in no other.
\<close>

theorem connect_joins_one_group:
  assumes "scope self ''url_route'' = Some route" and "route ''kwargs'' = Some kw"
    and "kw ''post_id'' = Some post_id"
  shows "\<exists>self' w'. connect self w = Inr (self', w')
           \<and> post_group_name self' = Some (''post_'' @ post_id)
           \<and> channel_name self' = channel_name self
           \<and> channel_name self \<in> set (groups w' (''post_'' @ post_id))
           \<and> (\<forall>g ch. g \<noteq> ''post_'' @ post_id \<or> ch \<noteq> channel_name self \<longrightarrow>
                  (ch \<in> set (groups w' g) \<longleftrightarrow> ch \<in> set (groups w g)))
           \<and> ((\<forall>g. channel_name self \<notin> set (groups w g)) \<longrightarrow>
                  (\<forall>g. channel_name self \<in> set (groups w' g) \<longleftrightarrow> g = ''post_'' @ post_id))"
  unfolding connect_result [OF assms]
  by (auto simp add: accept_def group_add_def)

theorem connect_joins_one_group_witness:
  "\<exists>self' w'. connect (new_consumer ''A'' (scope_of_post ''42'')) empty_world = Inr (self', w')
      \<and> post_group_name self' = Some ''post_42''
      \<and> ''A'' \<in> set (groups w' ''post_42'') \<and> ''A'' \<notin> set (groups w' ''post_7'')"
  using connect_joins_one_group [of "new_consumer ''A'' (scope_of_post ''42'')"
        "[''kwargs'' \<mapsto> [''post_id'' \<mapsto> ''42'']]" "[''post_id'' \<mapsto> ''42'']" "''42''"
        empty_world]
  by (auto simp add: new_consumer_def scope_of_post_lookup empty_world_def)






text \<open>
  C9. An event without the key \<^verbatim>\<open>message\<close> makes \<^verbatim>\<open>send_notification\<close> raise KeyError
  for that key; the call ends there, so no frame is sent.
\<close>

theorem send_notification_needs_message:
  assumes "event ''message'' = None"
  shows "send_notification self event w = Inl (KeyError ''message'')"
  using assms by (simp add: send_notification_def)

theorem send_notification_needs_message_witness:
  "send_notification (new_consumer ''A'' (scope_of_post ''42''))
     [''type'' \<mapsto> ''send_notification''] empty_world = Inl (KeyError ''message'')"
  using send_notification_needs_message [of "[''type'' \<mapsto> ''send_notification'']"]
  by simp

section \<open>Runs of the system\<close>

subsection \<open>One step at a time\<close>

lemma frames_to_append: "frames_to ch (xs @ ys) = frames_to ch xs @ frames_to ch ys"
  by (induction ch xs rule: frames_to.induct) simp_all

lemma frames_to_sends_distinct:
  "distinct chs \<Longrightarrow>
     frames_to ch (map (\<lambda>c. Send c t) chs) = (if ch \<in> set chs then [t] else [])"
  by (induction chs) auto

lemma connect_names_append: "connect_names (xs @ ys) = connect_names xs @ connect_names ys"
  by (induction xs rule: connect_names.induct) simp_all

lemma published_append: "published p (xs @ ys) = published p xs @ published p ys"
  by (induction p xs rule: published.induct) simp_all

lemma exec_snoc: "exec (tr @ [a]) = step a (exec tr)"
  by (simp add: exec_def)

lemma subscribers_snoc: "subscribers (tr @ [a]) p = subscribe p a (subscribers tr p)"
  by (simp add: subscribers_def)

lemma connect_new:
  "connect (new_consumer ch sc) w =
     (case post_id_of sc of
        None \<Rightarrow> Inl (KeyError (if sc ''url_route'' = None then ''url_route''
                      else if the (sc ''url_route'') ''kwargs'' = None then ''kwargs''
                      else ''post_id''))
      | Some p \<Rightarrow>
          Inr (\<lparr>scope = sc, channel_name = ch, post_group_name = Some (''post_'' @ p)\<rparr>,
               w\<lparr>groups := (groups w)(''post_'' @ p :=
                     (if ch \<in> set (groups w (''post_'' @ p)) then groups w (''post_'' @ p)
                      else groups w (''post_'' @ p) @ [ch])),
                 log := log w @ [GroupAdd (''post_'' @ p) ch, Accept ch]\<rparr>))"
  by (simp add: connect_def new_consumer_def post_id_of_def get_post_group_name_def
      group_add_def accept_def Let_def split: option.splits)

lemma step_Connect:
  "step (Connect ch sc) s =
     (case post_id_of sc of
        None \<Rightarrow> s
      | Some p \<Rightarrow>
          s\<lparr>consumers := (consumers s)(ch \<mapsto>
               \<lparr>scope = sc, channel_name = ch, post_group_name = Some (''post_'' @ p)\<rparr>),
            env := (env s)\<lparr>groups := (groups (env s))(''post_'' @ p :=
                     (if ch \<in> set (groups (env s) (''post_'' @ p)) then groups (env s) (''post_'' @ p)
                      else groups (env s) (''post_'' @ p) @ [ch])),
                 log := log (env s) @ [GroupAdd (''post_'' @ p) ch, Accept ch]\<rparr>\<rparr>)"
  by (simp add: connect_new split: option.splits)

lemma step_Disconnect:
  "step (Disconnect ch c) s =
     (case consumers s ch of
        None \<Rightarrow> s
      | Some self \<Rightarrow>
          (case post_group_name self of
             None \<Rightarrow> s
           | Some g \<Rightarrow>
               s\<lparr>env := (env s)\<lparr>groups := (groups (env s))(g := removeAll (channel_name self) (groups (env s) g)),
                    log := log (env s) @ [GroupDiscard g (channel_name self)]\<rparr>\<rparr>))"
  by (simp add: disconnect_def get_post_group_name_def group_discard_def split: option.splits)

lemma fold_deliver:
  assumes "ev ''message'' = Some m"
    and "\<forall>ch\<in>set chs. \<exists>self. consumers s ch = Some self \<and> channel_name self = ch"
  shows "fold (deliver ev) chs s =
     s\<lparr>env := (env s)\<lparr>log := log (env s) @
          map (\<lambda>ch. Send ch (json_dumps (JObj [(''message'', JStr m)]))) chs\<rparr>\<rparr>"
  using assms(2)
proof (induction chs arbitrary: s)
  case Nil
  show ?case by simp
next
  case (Cons ch chs)
  from Cons.prems obtain self where self: "consumers s ch = Some self" "channel_name self = ch"
    by auto
  let ?s1 = "s\<lparr>env := (env s)\<lparr>log := log (env s) @ [Send ch (json_dumps (JObj [(''message'', JStr m)]))]\<rparr>\<rparr>"
  have d: "deliver ev ch s = ?s1"
    using self assms(1) by (simp add: deliver_def send_notification_def send_def)
  have "\<forall>c\<in>set chs. \<exists>self. consumers ?s1 c = Some self \<and> channel_name self = c"
    using Cons.prems by simp
  from Cons.IH [OF this] show ?case by (simp add: d)
qed

lemma step_Notify:
  assumes "sys_inv s"
  shows "step (Notify p m) s =
     s\<lparr>env := (env s)\<lparr>log := log (env s) @
          map (\<lambda>ch. Send ch (json_dumps (JObj [(''message'', JStr m)])))
            (groups (env s) (''post_'' @ p))\<rparr>\<rparr>"
proof -
  have "\<forall>ch\<in>set (groups (env s) (''post_'' @ p)).
          \<exists>self. consumers s ch = Some self \<and> channel_name self = ch"
    using assms unfolding sys_inv_def by blast
  then show ?thesis
    by (simp add: notify_def group_send_def fold_deliver)
qed

declare step.simps [simp del]

lemma sys_inv_init: "sys_inv init"
  by (simp add: sys_inv_def init_def empty_world_def)

lemma sys_inv_step:
  assumes "sys_inv s" and "\<And>ch sc. a = Connect ch sc \<Longrightarrow> consumers s ch = None"
  shows "sys_inv (step a s)"
proof (cases a)
  case (Connect ch sc)
  then have fresh: "consumers s ch = None" by (rule assms(2))
  show ?thesis
  proof (cases "post_id_of sc")
    case None
    with Connect assms(1) show ?thesis by (simp add: step_Connect)
  next
    case (Some p)
    have notin: "ch \<notin> set (groups (env s) g)" for g
    proof
      assume "ch \<in> set (groups (env s) g)"
      with assms(1) obtain self where "consumers s ch = Some self"
        unfolding sys_inv_def by blast
      with fresh show False by simp
    qed
    show ?thesis
      using assms(1) fresh notin Some unfolding Connect step_Connect sys_inv_def
      by auto
  qed
next
  case (Disconnect ch c)
  show ?thesis
  proof (cases "consumers s ch")
    case None
    with Disconnect assms(1) show ?thesis by (simp add: step_Disconnect)
  next
    case (Some self)
    with assms(1) obtain p where "post_group_name self = Some (''post_'' @ p)" "channel_name self = ch"
      unfolding sys_inv_def by blast
    then show ?thesis
      using assms(1) Some unfolding Disconnect step_Disconnect sys_inv_def
      by (auto simp: distinct_removeAll)
  qed
next
  case (Notify p m)
  show ?thesis
    using assms(1) unfolding Notify step_Notify [OF assms(1)]
    by (simp add: sys_inv_def)
qed

subsection \<open>Every run keeps the consumers and the groups in step\<close>

lemma inv_member:
  "sys_inv s \<Longrightarrow> ch \<in> set (groups (env s) g) \<Longrightarrow>
     \<exists>self. consumers s ch = Some self \<and> post_group_name self = Some g"
  unfolding sys_inv_def by blast

lemma inv_consumer:
  "sys_inv s \<Longrightarrow> consumers s ch = Some self \<Longrightarrow>
     channel_name self = ch \<and>
     (\<exists>p. post_id_of (scope self) = Some p \<and> post_group_name self = Some (''post_'' @ p))"
  unfolding sys_inv_def by blast

lemma inv_distinct: "sys_inv s \<Longrightarrow> distinct (groups (env s) g)"
  unfolding sys_inv_def by blast

lemma consumers_step:
  assumes "sys_inv s"
  shows "dom (consumers (step a s)) \<subseteq> dom (consumers s) \<union> set (connect_names [a])"
proof (cases a)
  case (Connect ch sc)
  then show ?thesis by (auto simp: step_Connect split: option.splits)
next
  case (Disconnect ch c)
  then show ?thesis by (auto simp: step_Disconnect split: option.splits)
next
  case (Notify p m)
  then show ?thesis by (simp add: step_Notify [OF assms])
qed

lemma exec_inv:
  "distinct (connect_names tr) \<Longrightarrow>
     sys_inv (exec tr) \<and> dom (consumers (exec tr)) \<subseteq> set (connect_names tr)"
proof (induction tr rule: rev_induct)
  case Nil
  show ?case by (simp add: exec_def sys_inv_init) (simp add: init_def)
next
  case (snoc a tr)
  from snoc.prems have d: "distinct (connect_names tr)"
    and new: "set (connect_names [a]) \<inter> set (connect_names tr) = {}"
    by (auto simp: connect_names_append)
  from snoc.IH [OF d] have inv: "sys_inv (exec tr)"
    and dom: "dom (consumers (exec tr)) \<subseteq> set (connect_names tr)" by simp_all
  have "sys_inv (step a (exec tr))"
  proof (rule sys_inv_step [OF inv])
    fix ch sc assume "a = Connect ch sc"
    with new have "ch \<notin> set (connect_names tr)" by simp
    with dom show "consumers (exec tr) ch = None" by blast
  qed
  moreover have "dom (consumers (step a (exec tr))) \<subseteq> set (connect_names (tr @ [a]))"
    using consumers_step [OF inv, of a] dom by (auto simp: connect_names_append)
  ultimately show ?case by (simp add: exec_snoc)
qed

lemma not_connected_no_member:
  assumes "distinct (connect_names tr)" and "ch \<notin> set (connect_names tr)"
  shows "ch \<notin> set (groups (env (exec tr)) g)"
proof
  assume "ch \<in> set (groups (env (exec tr)) g)"
  with exec_inv [OF assms(1)] obtain self where "consumers (exec tr) ch = Some self"
    using inv_member by blast
  with exec_inv [OF assms(1)] assms(2) show False by blast
qed

lemma groups_subscribers:
  "distinct (connect_names tr) \<Longrightarrow>
     set (groups (env (exec tr)) (''post_'' @ p)) = subscribers tr p"
proof (induction tr arbitrary: p rule: rev_induct)
  case Nil
  show ?case by (simp add: exec_def init_def empty_world_def subscribers_def)
next
  case (snoc a tr)
  from snoc.prems have d: "distinct (connect_names tr)"
    and new: "set (connect_names [a]) \<inter> set (connect_names tr) = {}"
    by (auto simp: connect_names_append)
  note IH = snoc.IH [OF d]
  from exec_inv [OF d] have inv: "sys_inv (exec tr)"
    and dom: "dom (consumers (exec tr)) \<subseteq> set (connect_names tr)" by simp_all
  show ?case
  proof (cases a)
    case (Connect ch sc)
    with new have "ch \<notin> set (connect_names tr)" by simp
    then have "ch \<notin> set (groups (env (exec tr)) g)" for g
      by (rule not_connected_no_member [OF d])
    then show ?thesis
      by (cases "post_id_of sc")
        (simp_all add: Connect exec_snoc subscribers_snoc step_Connect IH [symmetric])
  next
    case (Disconnect ch c)
    show ?thesis
    proof (cases "consumers (exec tr) ch")
      case None
      have "ch \<notin> set (groups (env (exec tr)) (''post_'' @ p))"
        using inv_member [OF inv, of ch] None by fastforce
      then show ?thesis
        using IH None by (simp add: Disconnect exec_snoc subscribers_snoc step_Disconnect)
    next
      case (Some self)
      from inv_consumer [OF inv Some] obtain q
        where self: "post_group_name self = Some (''post_'' @ q)" "channel_name self = ch"
        by blast
      have other: "ch \<notin> set (groups (env (exec tr)) g)" if "g \<noteq> ''post_'' @ q" for g
      proof
        assume "ch \<in> set (groups (env (exec tr)) g)"
        from inv_member [OF inv this] Some self(1) have "g = ''post_'' @ q" by simp
        with that show False by simp
      qed
      show ?thesis
      proof (cases "p = q")
        case True
        then show ?thesis
          using IH Some self
          by (simp add: Disconnect exec_snoc subscribers_snoc step_Disconnect)
      next
        case False
        then have "ch \<notin> set (groups (env (exec tr)) (''post_'' @ p))"
          using other [of "''post_'' @ p"] by simp
        then show ?thesis
          using IH Some self False
          by (simp add: Disconnect exec_snoc subscribers_snoc step_Disconnect)
      qed
    qed
  next
    case (Notify q m)
    then show ?thesis
      using IH by (simp add: exec_snoc subscribers_snoc step_Notify [OF inv])
  qed
qed

lemma received_step:
  assumes "sys_inv s"
  shows "received (step a s) ch =
     received s ch @
       (case a of
          Notify p m \<Rightarrow>
            (if ch \<in> set (groups (env s) (''post_'' @ p))
             then [json_dumps (JObj [(''message'', JStr m)])] else [])
        | _ \<Rightarrow> [])"
proof (cases a)
  case (Connect c sc)
  then show ?thesis
    by (simp add: received_def step_Connect frames_to_append split: option.splits)
next
  case (Disconnect c code)
  then show ?thesis
    by (simp add: received_def step_Disconnect frames_to_append split: option.splits)
next
  case (Notify p m)
  from assms have "distinct (groups (env s) (''post_'' @ p))"
    by (rule inv_distinct)
  then show ?thesis
    by (simp add: Notify received_def step_Notify [OF assms] frames_to_append
        frames_to_sends_distinct)
qed

lemma not_connected_nothing_received:
  "distinct (connect_names tr) \<Longrightarrow> ch \<notin> set (connect_names tr) \<Longrightarrow>
     received (exec tr) ch = []"
proof (induction tr rule: rev_induct)
  case Nil
  show ?case by (simp add: exec_def init_def empty_world_def received_def)
next
  case (snoc a tr)
  from snoc.prems have d: "distinct (connect_names tr)"
    and nc: "ch \<notin> set (connect_names tr)"
    by (auto simp: connect_names_append)
  from exec_inv [OF d] have inv: "sys_inv (exec tr)" by simp
  have "ch \<notin> set (groups (env (exec tr)) g)" for g
    using d nc by (rule not_connected_no_member)
  then show ?case
    using snoc.IH [OF d nc]
    by (simp add: exec_snoc received_step [OF inv] split: action.splits)
qed


subsection \<open>Subscribers, read off the trace\<close>

lemma subscribers_append:
  "subscribers (tr @ tr') p = fold (subscribe p) tr' (subscribers tr p)"
  by (simp add: subscribers_def)

lemma fold_subscribe_mem:
  "ch \<notin> set (connect_names tr) \<Longrightarrow>
     ch \<in> fold (subscribe p) tr S \<longleftrightarrow> ch \<in> S \<and> \<not> disconnected ch tr"
proof (induction tr arbitrary: S)
  case Nil
  show ?case by (simp add: disconnected_def)
next
  case (Cons a tr)
  show ?case
  proof (cases a)
    case (Connect c sc)
    with Cons.prems have "c \<noteq> ch" "ch \<notin> set (connect_names tr)" by auto
    then show ?thesis using Cons.IH [of "subscribe p a S"]
      by (simp add: Connect disconnected_def)
  next
    case (Disconnect c code)
    with Cons.prems have "ch \<notin> set (connect_names tr)" by simp
    then show ?thesis using Cons.IH [of "subscribe p a S"]
      by (auto simp add: Disconnect disconnected_def)
  next
    case (Notify q m)
    with Cons.prems have "ch \<notin> set (connect_names tr)" by simp
    then show ?thesis using Cons.IH [of "subscribe p a S"]
      by (simp add: Notify disconnected_def)
  qed
qed

lemma subscribers_connected:
  "ch \<in> subscribers tr p \<Longrightarrow> ch \<in> set (connect_names tr)"
proof (induction tr rule: rev_induct)
  case Nil
  then show ?case by (simp add: subscribers_def)
next
  case (snoc a tr)
  then show ?case
    by (cases a) (auto simp: subscribers_snoc connect_names_append split: if_splits)
qed

lemma until_disconnect_snoc:
  "until_disconnect ch (tr @ [a]) =
     (if disconnected ch tr \<or> is_disconnect ch a then until_disconnect ch tr
      else until_disconnect ch tr @ [a])"
  by (induction tr) (auto simp: disconnected_def)

lemma received_snoc:
  assumes "distinct (connect_names tr)"
  shows "received (exec (tr @ [a])) ch =
     received (exec tr) ch @
       (case a of
          Notify p m \<Rightarrow> (if ch \<in> subscribers tr p then [notification m] else [])
        | _ \<Rightarrow> [])"
  using exec_inv [OF assms] groups_subscribers [OF assms]
  by (simp add: exec_snoc received_step split: action.splits)

lemma subscribers_after_connect:
  assumes "distinct (connect_names (tr @ Connect ch sc # tr'))" and "post_id_of sc = Some p"
  shows "ch \<in> subscribers (tr @ Connect ch sc # tr') q \<longleftrightarrow> q = p \<and> \<not> disconnected ch tr'"
proof -
  from assms(1) have new: "ch \<notin> set (connect_names tr)" and later: "ch \<notin> set (connect_names tr')"
    by (auto simp: connect_names_append)
  from new have "ch \<notin> subscribers tr q" using subscribers_connected by blast
  then have "ch \<in> subscribers (tr @ [Connect ch sc]) q \<longleftrightarrow> q = p"
    using assms(2) by (auto simp: subscribers_snoc)
  moreover have "subscribers (tr @ Connect ch sc # tr') q =
      fold (subscribe q) tr' (subscribers (tr @ [Connect ch sc]) q)"
    using subscribers_append [of "tr @ [Connect ch sc]" tr' q] by simp
  ultimately show ?thesis using fold_subscribe_mem [OF later] by simp
qed

lemma subscribers_after_disconnect:
  assumes "distinct (connect_names (tr @ Disconnect ch c # tr'))" and "ch \<in> set (connect_names tr)"
  shows "ch \<notin> subscribers (tr @ Disconnect ch c # tr') q"
proof -
  from assms have later: "ch \<notin> set (connect_names tr')"
    by (auto simp: connect_names_append)
  have "ch \<notin> subscribers (tr @ [Disconnect ch c]) q"
    by (simp add: subscribers_snoc)
  moreover have "subscribers (tr @ Disconnect ch c # tr') q =
      fold (subscribe q) tr' (subscribers (tr @ [Disconnect ch c]) q)"
    using subscribers_append [of "tr @ [Disconnect ch c]" tr' q] by simp
  ultimately show ?thesis using fold_subscribe_mem [OF later] by simp
qed

lemma distinct_prefix:
  "distinct (connect_names (tr @ tr')) \<Longrightarrow> distinct (connect_names tr)"
  by (simp add: connect_names_append)

lemma received_after_connect:
  assumes "distinct (connect_names (tr @ Connect ch sc # tr'))" and "post_id_of sc = Some p"
  shows "received (exec (tr @ Connect ch sc # tr')) ch =
           map notification (published p (until_disconnect ch tr'))"
  using assms(1)
proof (induction tr' rule: rev_induct)
  case Nil
  then have d: "distinct (connect_names tr)" and new: "ch \<notin> set (connect_names tr)"
    by (auto simp: connect_names_append)
  from received_snoc [OF d, of "Connect ch sc" ch] not_connected_nothing_received [OF d new]
  show ?case by simp
next
  case (snoc a tr')
  have d: "distinct (connect_names (tr @ Connect ch sc # tr'))"
    using snoc.prems distinct_prefix [of "tr @ Connect ch sc # tr'" "[a]"] by simp
  note IH = snoc.IH [OF d]
  note mem = subscribers_after_connect [OF d assms(2)]
  have "received (exec ((tr @ Connect ch sc # tr') @ [a])) ch =
      received (exec (tr @ Connect ch sc # tr')) ch @
       (case a of
          Notify q m \<Rightarrow> (if ch \<in> subscribers (tr @ Connect ch sc # tr') q then [notification m] else [])
        | _ \<Rightarrow> [])"
    by (rule received_snoc [OF d])
  then show ?case
    using IH mem
    by (cases a) (simp_all add: until_disconnect_snoc published_append)
qed

lemma received_after_disconnect:
  assumes "distinct (connect_names (tr @ Disconnect ch c # tr'))" and "ch \<in> set (connect_names tr)"
  shows "received (exec (tr @ Disconnect ch c # tr')) ch = received (exec tr) ch"
  using assms(1)
proof (induction tr' rule: rev_induct)
  case Nil
  then have d: "distinct (connect_names tr)" by (simp add: connect_names_append)
  from received_snoc [OF d, of "Disconnect ch c" ch] show ?case by simp
next
  case (snoc a tr')
  have d: "distinct (connect_names (tr @ Disconnect ch c # tr'))"
    using snoc.prems distinct_prefix [of "tr @ Disconnect ch c # tr'" "[a]"] by simp
  note IH = snoc.IH [OF d]
  note mem = subscribers_after_disconnect [OF d assms(2)]
  have "received (exec ((tr @ Disconnect ch c # tr') @ [a])) ch =
      received (exec (tr @ Disconnect ch c # tr')) ch @
       (case a of
          Notify q m \<Rightarrow> (if ch \<in> subscribers (tr @ Disconnect ch c # tr') q then [notification m] else [])
        | _ \<Rightarrow> [])"
    by (rule received_snoc [OF d])
  then show ?case
    using IH mem by (cases a) simp_all
qed

lemma post_id_of_scope_of_post: "post_id_of (scope_of_post p) = Some p"
  by (simp add: post_id_of_def scope_of_post_def)

text \<open>The frame for the text \<^verbatim>\<open>hello\<close>, character by character.\<close>

lemma notification_hello:
  "notification ''hello'' =
     ''{'' @ [CHR 0x22] @ ''message'' @ [CHR 0x22] @ '': '' @ [CHR 0x22] @ ''hello'' @ [CHR 0x22] @ ''}''"
  by (simp add: encode_basestring_ascii_def escape_char_def)

lemma one_group_at_a_time:
  assumes "sys_inv s" and "ch \<in> set (groups (env s) g)" and "ch \<in> set (groups (env s) h)"
  shows "g = h"
proof -
  from inv_member [OF assms(1,2)] inv_member [OF assms(1,3)] show ?thesis by auto
qed

lemma consumers_stable:
  assumes "distinct (connect_names (tr @ tr'))" and "consumers (exec tr) ch = Some self"
  shows "consumers (exec (tr @ tr')) ch = Some self"
  using assms(1)
proof (induction tr' rule: rev_induct)
  case Nil
  show ?case using assms(2) by simp
next
  case (snoc a tr')
  have d: "distinct (connect_names (tr @ tr'))"
    using snoc.prems distinct_prefix [of "tr @ tr'" "[a]"] by simp
  note IH = snoc.IH [OF d]
  from exec_inv [OF d] have inv: "sys_inv (exec (tr @ tr'))"
    and dom: "dom (consumers (exec (tr @ tr'))) \<subseteq> set (connect_names (tr @ tr'))" by simp_all
  have e: "exec (tr @ tr' @ [b]) = step b (exec (tr @ tr'))" for b
    using exec_snoc [of "tr @ tr'" b] by simp
  show ?case
  proof (cases a)
    case (Connect c sc)
    from IH dom have "ch \<in> set (connect_names (tr @ tr'))" by blast
    moreover from snoc.prems Connect have "c \<notin> set (connect_names (tr @ tr'))"
      by (simp add: connect_names_append)
    ultimately have "c \<noteq> ch" by blast
    then show ?thesis using IH
      by (simp add: e Connect step_Connect split: option.splits)
  next
    case (Disconnect c code)
    then show ?thesis using IH
      by (simp add: e step_Disconnect split: option.splits)
  next
    case (Notify q m)
    then show ?thesis using IH by (simp add: e step_Notify [OF inv])
  qed
qed


section \<open>The text of a notification holds the message\<close>

lemma unhex_hexdigit: "unhex (hexdigit n) = Some (n mod 16)"
proof -
  have "n mod 16 \<le> 15"
    using mod_less_divisor [of 16 n] by linarith
  then show ?thesis
    by (simp add: hexdigit_def unhex_def Let_def)
qed

lemma unhex4_hex4:
  assumes "n < 256"
  shows "unhex4 (hexdigit (n div 4096)) (hexdigit (n div 256)) (hexdigit (n div 16)) (hexdigit n)
           = Some (char_of n)"
proof -
  have "((n div 4096 mod 16 * 16 + n div 256 mod 16) * 16 + n div 16 mod 16) * 16 + n mod 16 = n"
    using assms by simp
  then show ?thesis
    using assms by (simp add: unhex4_def unhex_hexdigit)
qed


lemma scanstring_escape_char:
  "scanstring (escape_char c @ cs) = map_option (\<lambda>(s, rest). (c # s, rest)) (scanstring cs)"
proof (cases "(of_char c :: nat) < 32 \<or> 126 < (of_char c :: nat)")
  case True
  have n: "(of_char c :: nat) < 256" by simp
  show ?thesis
    using True unhex4_hex4 [OF n]
    by (auto simp add: escape_char_def hex4_def unescape_def)
next
  case False
  then show ?thesis
    by (auto simp add: escape_char_def unescape_def)
qed

lemma scanstring_escaped:
  "scanstring (concat (map escape_char s) @ CHR 0x22 # rest) = Some (s, rest)"
proof (induction s)
  case Nil
  show ?case by simp
next
  case (Cons c s)
  have "scanstring (escape_char c @ concat (map escape_char s) @ CHR 0x22 # rest)
          = map_option (\<lambda>(s, rest). (c # s, rest))
              (scanstring (concat (map escape_char s) @ CHR 0x22 # rest))"
    by (rule scanstring_escape_char)
  with Cons.IH show ?case by simp
qed


lemma expect_prefix: "expect pre (pre @ t) = Some t"
  by (simp add: expect_def)

lemma loads_object_dumps:
  "loads_object (json_dumps (JObj [(k, JStr v)])) = Some (JObj [(k, JStr v)])"
proof -
  let ?t2 = "[CHR '':'', CHR '' '', CHR 0x22] @ concat (map escape_char v) @ CHR 0x22 # ''}''"
  have "json_dumps (JObj [(k, JStr v)]) =
      [CHR ''{'', CHR 0x22] @ concat (map escape_char k) @ CHR 0x22 # ?t2"
    by (simp add: encode_basestring_ascii_def)
  moreover have "scanstring (concat (map escape_char k) @ CHR 0x22 # ?t2) = Some (k, ?t2)"
    by (rule scanstring_escaped)
  moreover have "scanstring (concat (map escape_char v) @ CHR 0x22 # ''}'') = Some (v, ''}'')"
    by (rule scanstring_escaped)
  ultimately show ?thesis
    by (simp only: loads_object_def expect_prefix option.case prod.case simp_thms if_True)
qed

lemma notification_holds_the_text:
  "loads_object (notification m) = Some (JObj [(''message'', JStr m)])"
  by (rule loads_object_dumps)

lemma notification_inj: "notification m = notification m' \<Longrightarrow> m = m'"
proof -
  assume "notification m = notification m'"
  then have "loads_object (notification m) = loads_object (notification m')" by simp
  then show "m = m'"
    by (simp only: notification_holds_the_text option.inject json.inject list.inject
        prod.inject)
qed

lemma published_until_disconnect:
  "set (published p (until_disconnect ch tr)) \<subseteq> set (published p tr)"
  by (induction p tr rule: published.induct) auto

section \<open>What the sessions receive\<close>



text \<open>
  C5. After every sequence of connects, disconnects and notifications in which each
  connection has a channel name of its own: the members of the group of post \<open>p\<close> are
  exactly the sessions that connected with \<open>p\<close> and have not disconnected since; every
  group with a member is the group of a post; a session is a member of at most one
  group, and one that connected with \<open>p\<close> and has not disconnected is a member of the
  group of \<open>p\<close> and of no other; its consumer has the group name made from the post
  identifier of its own request; and a consumer, with its group name, stays as \<^verbatim>\<open>connect\<close>
  left it, whatever happens later.
\<close>

theorem membership_is_who_joined_and_has_not_left:
  assumes "distinct (connect_names tr)"
  shows "members (exec tr) (''post_'' @ p) = subscribers tr p
       \<and> (\<forall>ch g. ch \<in> members (exec tr) g \<longrightarrow>
             (\<exists>q. g = ''post_'' @ q \<and> ch \<in> subscribers tr q))
       \<and> (\<forall>ch g h. ch \<in> members (exec tr) g \<and> ch \<in> members (exec tr) h \<longrightarrow> g = h)
       \<and> (\<forall>ch. ch \<in> subscribers tr p \<longrightarrow>
             (\<forall>g. ch \<in> members (exec tr) g \<longleftrightarrow> g = ''post_'' @ p))
       \<and> (\<forall>ch. ch \<in> subscribers tr p \<longrightarrow>
             (\<exists>self. consumers (exec tr) ch = Some self \<and> post_id_of (scope self) = Some p
                    \<and> post_group_name self = Some (''post_'' @ p)))
       \<and> (\<forall>ch self tr'. consumers (exec tr) ch = Some self \<and> distinct (connect_names (tr @ tr'))
             \<longrightarrow> consumers (exec (tr @ tr')) ch = Some self)"
proof -
  from exec_inv [OF assms] have inv: "sys_inv (exec tr)" by simp
  note gs = groups_subscribers [OF assms]
  have a: "members (exec tr) (''post_'' @ p) = subscribers tr p"
    using gs [of p] by (simp add: members_def)
  have b: "\<exists>q. g = ''post_'' @ q \<and> ch \<in> subscribers tr q"
    if "ch \<in> members (exec tr) g" for ch g
  proof -
    from that have m: "ch \<in> set (groups (env (exec tr)) g)" by (simp add: members_def)
    from inv_member [OF inv m] obtain self
      where self: "consumers (exec tr) ch = Some self" "post_group_name self = Some g" by blast
    from inv_consumer [OF inv self(1)] self(2) obtain q where "g = ''post_'' @ q" by auto
    with m gs [of q] show ?thesis by auto
  qed
  have c: "g = h" if "ch \<in> members (exec tr) g \<and> ch \<in> members (exec tr) h" for ch g h
    using one_group_at_a_time [OF inv, of ch g h] that by (simp add: members_def)
  have d: "\<exists>self. consumers (exec tr) ch = Some self \<and> post_id_of (scope self) = Some p
                    \<and> post_group_name self = Some (''post_'' @ p)"
    if "ch \<in> subscribers tr p" for ch
  proof -
    from that gs [of p] have m: "ch \<in> set (groups (env (exec tr)) (''post_'' @ p))" by simp
    from inv_member [OF inv m] obtain self
      where self: "consumers (exec tr) ch = Some self" "post_group_name self = Some (''post_'' @ p)"
      by blast
    from inv_consumer [OF inv self(1)] self(2) have "post_id_of (scope self) = Some p" by auto
    with self show ?thesis by simp
  qed
  have e: "consumers (exec (tr @ tr')) ch = Some self"
    if "consumers (exec tr) ch = Some self \<and> distinct (connect_names (tr @ tr'))" for ch self tr'
    using consumers_stable [of tr tr' ch self] that by simp
  have f: "ch \<in> members (exec tr) g \<longleftrightarrow> g = ''post_'' @ p"
    if "ch \<in> subscribers tr p" for ch g
  proof
    assume "ch \<in> members (exec tr) g"
    moreover from that a have "ch \<in> members (exec tr) (''post_'' @ p)" by simp
    ultimately show "g = ''post_'' @ p" using c by blast
  next
    assume "g = ''post_'' @ p"
    with that a show "ch \<in> members (exec tr) g" by simp
  qed
  from a b c d e f show ?thesis by blast
qed

theorem membership_is_who_joined_and_has_not_left_witness:
  "distinct (connect_names [Connect ''A'' (scope_of_post ''42''), Connect ''B'' (scope_of_post ''42''),
        Connect ''C'' (scope_of_post ''7''), Notify ''42'' ''hello'', Disconnect ''A'' 1000])
   \<and> members (exec [Connect ''A'' (scope_of_post ''42''), Connect ''B'' (scope_of_post ''42''),
        Connect ''C'' (scope_of_post ''7''), Notify ''42'' ''hello'', Disconnect ''A'' 1000]) ''post_42''
       = {''B''}"
  using membership_is_who_joined_and_has_not_left
    [of "[Connect ''A'' (scope_of_post ''42''), Connect ''B'' (scope_of_post ''42''),
          Connect ''C'' (scope_of_post ''7''), Notify ''42'' ''hello'', Disconnect ''A'' 1000]" "''42''"]
  by (auto simp add: subscribers_def post_id_of_scope_of_post)

text \<open>
  C6. A session that connects for post \<open>p\<close> has received nothing when its \<^verbatim>\<open>connect\<close>
  ends, whatever was published before, and what it has received at any later time are
  the notifications published to \<open>p\<close> after its \<^verbatim>\<open>connect\<close> and before its
  \<^verbatim>\<open>disconnect\<close>, in order: nothing that was published before it joined is ever replayed.
  So a text that is not published to \<open>p\<close> again after the \<^verbatim>\<open>connect\<close> never reaches
  the session, however often it was published before.
\<close>

theorem no_replay_for_a_late_session:
  assumes "distinct (connect_names (tr @ Connect ch sc # tr'))" and "post_id_of sc = Some p"
  shows "received (exec (tr @ [Connect ch sc])) ch = []
       \<and> received (exec (tr @ Connect ch sc # tr')) ch =
           map notification (published p (until_disconnect ch tr'))
       \<and> (\<forall>m. m \<notin> set (published p tr') \<longrightarrow>
             notification m \<notin> set (received (exec (tr @ Connect ch sc # tr')) ch))"
proof -
  have "distinct (connect_names (tr @ Connect ch sc # []))"
    using assms(1) by (simp add: connect_names_append)
  from received_after_connect [OF this assms(2)]
  have a: "received (exec (tr @ [Connect ch sc])) ch = []" by simp
  note b = received_after_connect [OF assms]
  have c: "notification m \<notin> set (received (exec (tr @ Connect ch sc # tr')) ch)"
    if "m \<notin> set (published p tr')" for m
  proof
    assume "notification m \<in> set (received (exec (tr @ Connect ch sc # tr')) ch)"
    with b obtain m' where m': "m' \<in> set (published p (until_disconnect ch tr'))"
      and eq: "notification m = notification m'" by auto
    from eq have "m = m'" by (rule notification_inj)
    with m' published_until_disconnect [of p ch tr'] that show False by blast
  qed
  from a b c show ?thesis by blast
qed

theorem no_replay_for_a_late_session_witness:
  "distinct (connect_names ([Connect ''A'' (scope_of_post ''42''), Notify ''42'' ''hello'']
       @ Connect ''B'' (scope_of_post ''42'') # [Notify ''7'' ''x'', Notify ''42'' ''second'']))
   \<and> post_id_of (scope_of_post ''42'') = Some ''42''
   \<and> received (exec ([Connect ''A'' (scope_of_post ''42''), Notify ''42'' ''hello'']
       @ [Connect ''B'' (scope_of_post ''42'')])) ''B'' = []
   \<and> received (exec ([Connect ''A'' (scope_of_post ''42''), Notify ''42'' ''hello'']
       @ Connect ''B'' (scope_of_post ''42'') # [Notify ''7'' ''x'', Notify ''42'' ''second''])) ''B''
       = [notification ''second'']
   \<and> notification ''hello'' \<notin> set (received
        (exec ([Connect ''A'' (scope_of_post ''42''), Notify ''42'' ''hello'']
       @ Connect ''B'' (scope_of_post ''42'') # [Notify ''7'' ''x'', Notify ''42'' ''second''])) ''B'')"
proof -
  let ?tr = "[Connect ''A'' (scope_of_post ''42''), Notify ''42'' ''hello'']"
  let ?tr' = "[Notify ''7'' ''x'', Notify ''42'' ''second'']"
  have d: "distinct (connect_names (?tr @ Connect ''B'' (scope_of_post ''42'') # ?tr'))"
    by simp
  have h: "''hello'' \<notin> set (published ''42'' ?tr')"
    by simp
  note t = no_replay_for_a_late_session [OF d post_id_of_scope_of_post]
  from t have "received (exec (?tr @ [Connect ''B'' (scope_of_post ''42'')])) ''B'' = []"
    by (rule conjunct1)
  moreover from t have "received (exec (?tr @ Connect ''B'' (scope_of_post ''42'') # ?tr')) ''B''
      = map notification (published ''42'' (until_disconnect ''B'' ?tr'))"
    by blast
  then have "received (exec (?tr @ Connect ''B'' (scope_of_post ''42'') # ?tr')) ''B''
      = [notification ''second'']"
    by simp
  moreover from t h have "notification ''hello'' \<notin> set (received
        (exec (?tr @ Connect ''B'' (scope_of_post ''42'') # ?tr')) ''B'')"
    by blast
  ultimately show ?thesis
    using d by (simp only: post_id_of_scope_of_post simp_thms)
qed

text \<open>
  C7. Once a session that had connected has disconnected, it is in no group, and
  whatever is published afterwards, it has received exactly what it had received
  when it disconnected.
\<close>

theorem nothing_after_disconnect:
  assumes "distinct (connect_names (tr @ Disconnect ch close_code # tr'))"
    and "ch \<in> set (connect_names tr)"
  shows "received (exec (tr @ Disconnect ch close_code # tr')) ch = received (exec tr) ch
       \<and> (\<forall>g. ch \<notin> members (exec (tr @ Disconnect ch close_code # tr')) g)"
proof -
  let ?tr = "tr @ Disconnect ch close_code # tr'"
  from exec_inv [OF assms(1)] have inv: "sys_inv (exec ?tr)" by simp
  have "ch \<notin> members (exec ?tr) g" for g
  proof
    assume "ch \<in> members (exec ?tr) g"
    then have m: "ch \<in> set (groups (env (exec ?tr)) g)" by (simp add: members_def)
    from inv_member [OF inv m] obtain self
      where self: "consumers (exec ?tr) ch = Some self" "post_group_name self = Some g" by blast
    from inv_consumer [OF inv self(1)] self(2) obtain q where "g = ''post_'' @ q" by auto
    with m groups_subscribers [OF assms(1), of q] have "ch \<in> subscribers ?tr q" by simp
    with subscribers_after_disconnect [OF assms] show False by simp
  qed
  with received_after_disconnect [OF assms] show ?thesis by simp
qed

theorem nothing_after_disconnect_witness:
  "distinct (connect_names ([Connect ''A'' (scope_of_post ''42''), Notify ''42'' ''hello'']
       @ Disconnect ''A'' 1000 # [Notify ''42'' ''again'']))
   \<and> ''A'' \<in> set (connect_names [Connect ''A'' (scope_of_post ''42''), Notify ''42'' ''hello''])
   \<and> received (exec ([Connect ''A'' (scope_of_post ''42''), Notify ''42'' ''hello'']
       @ Disconnect ''A'' 1000 # [Notify ''42'' ''again''])) ''A'' = [notification ''hello'']"
proof -
  have "distinct (connect_names ([] @ Connect ''A'' (scope_of_post ''42'') # [Notify ''42'' ''hello'']))"
    by simp
  from received_after_connect [OF this post_id_of_scope_of_post]
  have "received (exec [Connect ''A'' (scope_of_post ''42''), Notify ''42'' ''hello'']) ''A''
          = [notification ''hello'']"
    by simp
  then show ?thesis
    using nothing_after_disconnect
      [of "[Connect ''A'' (scope_of_post ''42''), Notify ''42'' ''hello'']" "''A''" 1000
          "[Notify ''42'' ''again'']"]
    by simp
qed

text \<open>
  C10. \<^verbatim>\<open>connect\<close> calls \<^verbatim>\<open>group_add\<close> first and \<^verbatim>\<open>accept\<close> second. From the end of its
  \<^verbatim>\<open>connect\<close> until its \<^verbatim>\<open>disconnect\<close> the session is a member of its post's group, and
  a notification published to that post in that time reaches it.
\<close>

theorem registered_before_accepted:
  assumes "distinct (connect_names (tr @ Connect ch sc # tr'))" and "post_id_of sc = Some p"
    and "\<not> disconnected ch tr'"
  shows "log (env (exec (tr @ [Connect ch sc]))) =
           log (env (exec tr)) @ [GroupAdd (''post_'' @ p) ch, Accept ch]
       \<and> ch \<in> members (exec (tr @ Connect ch sc # tr')) (''post_'' @ p)
       \<and> received (exec (tr @ Connect ch sc # tr' @ [Notify p m])) ch =
           received (exec (tr @ Connect ch sc # tr')) ch @ [notification m]"
proof -
  let ?tr = "tr @ Connect ch sc # tr'"
  have a: "log (env (exec (tr @ [Connect ch sc]))) =
           log (env (exec tr)) @ [GroupAdd (''post_'' @ p) ch, Accept ch]"
    using assms(2) by (simp add: exec_snoc step_Connect)
  have s: "ch \<in> subscribers ?tr p"
    using subscribers_after_connect [OF assms(1,2), of p] assms(3) by simp
  then have b: "ch \<in> members (exec ?tr) (''post_'' @ p)"
    using groups_subscribers [OF assms(1), of p] by (simp add: members_def)
  have c: "received (exec (?tr @ [Notify p m])) ch = received (exec ?tr) ch @ [notification m]"
    using received_snoc [OF assms(1), of "Notify p m" ch] s by simp
  from a b c show ?thesis by simp
qed

theorem registered_before_accepted_witness:
  "distinct (connect_names ([Connect ''A'' (scope_of_post ''42''), Notify ''42'' ''hello'']
       @ Connect ''B'' (scope_of_post ''42'') # [Disconnect ''A'' 1000]))
   \<and> post_id_of (scope_of_post ''42'') = Some ''42''
   \<and> \<not> disconnected ''B'' [Disconnect ''A'' 1000]
   \<and> received (exec ([Connect ''A'' (scope_of_post ''42''), Notify ''42'' ''hello'']
       @ Connect ''B'' (scope_of_post ''42'') # [Disconnect ''A'' 1000] @ [Notify ''42'' ''late''])) ''B''
       = [notification ''late'']"
proof -
  have d: "distinct (connect_names ([Connect ''A'' (scope_of_post ''42''), Notify ''42'' ''hello'']
       @ Connect ''B'' (scope_of_post ''42'') # [Disconnect ''A'' 1000]))"
    by simp
  have nd: "\<not> disconnected ''B'' [Disconnect ''A'' 1000]"
    by (simp add: disconnected_def)
  from received_after_connect [OF d post_id_of_scope_of_post]
  have "received (exec ([Connect ''A'' (scope_of_post ''42''), Notify ''42'' ''hello'']
       @ Connect ''B'' (scope_of_post ''42'') # [Disconnect ''A'' 1000])) ''B'' = []"
    by simp
  with registered_before_accepted [OF d post_id_of_scope_of_post nd, of "''late''"] d nd
  show ?thesis by (simp add: post_id_of_scope_of_post)
qed

end
